theory Spec2Isabelle
  imports Complex_Main "HOL-Library.Word"
begin

section \<open>Visit Counter (analyzer/counter.go)\<close>

text \<open>
  The counter keeps three structures in step: \<open>data\<close> (client to count, a Go
  \<open>map[string]uint16\<close>), \<open>lru\<close> (a \<open>container/list\<close>, most recently used at the front)
  and \<open>index\<close> (client to its list element). A list element is represented by the
  string it carries; \<open>lru\<close> is written front first.
\<close>

type_synonym uint16 = "16 word"

record Counter =
  maxSize :: int
  data :: "string \<rightharpoonup> uint16"
  lru :: "string list"
  index :: "string \<rightharpoonup> string"

definition NewCounter :: Counter where
  "NewCounter = \<lparr>maxSize = 100000, data = Map.empty, lru = [], index = Map.empty\<rparr>"

text \<open>\<open>list.MoveToFront\<close>: an element that is not in the list leaves it as it is.\<close>

definition MoveToFront :: "string \<Rightarrow> string list \<Rightarrow> string list" where
  "MoveToFront e l = (if e \<in> set l then e # remove1 e l else l)"

text \<open>\<open>list.Back\<close>: the last element, or nil for an empty list.\<close>

definition Back :: "string list \<Rightarrow> string option" where
  "Back l = (if l = [] then None else Some (last l))"

text \<open>Reading a Go map at a missing key gives the zero value.\<close>

definition Count :: "string \<Rightarrow> Counter \<Rightarrow> uint16" where
  "Count ip c = (case data c ip of None \<Rightarrow> 0 | Some v \<Rightarrow> v)"

definition evict_tail :: "Counter \<Rightarrow> Counter" where
  "evict_tail c =
     (case Back (lru c) of
        None \<Rightarrow> c
      | Some tailIP \<Rightarrow>
          c\<lparr>data := (data c)(tailIP := None),
            index := (index c)(tailIP := None),
            lru := butlast (lru c)\<rparr>)"

definition Visit :: "string \<Rightarrow> Counter \<Rightarrow> uint16 \<times> Counter" where
  "Visit ip c =
     (case index c ip of
        Some elem \<Rightarrow>
          (let count = Count ip c + 1
           in (count, c\<lparr>data := (data c)(ip \<mapsto> count), lru := MoveToFront elem (lru c)\<rparr>))
      | None \<Rightarrow>
          (let c1 = (if int (card (dom (data c))) \<ge> maxSize c then evict_tail c else c)
           in (1, c1\<lparr>lru := ip # lru c1,
                     data := (data c1)(ip \<mapsto> 1),
                     index := (index c1)(ip \<mapsto> ip)\<rparr>)))"

definition Clear :: "Counter \<Rightarrow> Counter" where
  "Clear c = c\<lparr>data := Map.empty, lru := [], index := Map.empty\<rparr>"

text \<open>\<open>n\<close> consecutive calls of \<open>Visit\<close> for one client; the state after them.\<close>

primrec repeat_Visit :: "nat \<Rightarrow> string \<Rightarrow> Counter \<Rightarrow> Counter" where
  "repeat_Visit 0 ip c = c"
| "repeat_Visit (Suc n) ip c = snd (Visit ip (repeat_Visit n ip c))"

text \<open>Visiting a sequence of clients in order; the state after them.\<close>

definition visit_all :: "string list \<Rightarrow> Counter \<Rightarrow> Counter" where
  "visit_all ips c = fold (\<lambda>ip c'. snd (Visit ip c')) ips c"

text \<open>The three structures describe the same set of clients, each once.\<close>

definition counter_inv :: "Counter \<Rightarrow> bool" where
  "counter_inv c \<longleftrightarrow>
     distinct (lru c) \<and> dom (data c) = set (lru c) \<and>
     (\<forall>ip. index c ip = (if ip \<in> set (lru c) then Some ip else None))"


section \<open>Dedup Filter (bloom.go)\<close>

text \<open>
  \<open>DoubleBufferBloom\<close> wraps two filters of the bits-and-blooms library, which is a
  dependency and not part of the repository. A filter is modelled the way the library
  builds it: \<open>mbits\<close> bit positions, \<open>khashes\<close> probes per key, and the set of positions
  that are set. The probe positions come from the library's hash of the key, which is a
  fixed function of the key; it is the parameter \<open>h\<close> (\<open>h key i\<close> is the \<open>i\<close>-th
  location before the reduction modulo \<open>mbits\<close>).
\<close>

type_synonym byte = "8 word"
type_synonym uint64 = "64 word"
type_synonym probe = "byte list \<Rightarrow> nat \<Rightarrow> nat"

record BloomFilter =
  mbits :: nat
  khashes :: nat
  bitset :: "nat set"

text \<open>\<open>bloom.New\<close> raises both sizes to at least 1; the bit set starts empty.\<close>

definition bloom_New :: "nat \<Rightarrow> nat \<Rightarrow> BloomFilter" where
  "bloom_New m k = \<lparr>mbits = max 1 m, khashes = max 1 k, bitset = {}\<rparr>"

text \<open>
  \<open>bloom.NewWithEstimates(BloomMaxCapacity, BloomFalsePositiveRate)\<close> computes the two
  sizes in floating point and passes them to \<open>bloom.New\<close>. The computed pair is the
  parameter \<open>est\<close>; for the defaults 100000 and 0.01 it is \<open>(958506, 7)\<close>.
\<close>

definition NewWithEstimates :: "nat \<times> nat \<Rightarrow> BloomFilter" where
  "NewWithEstimates est = bloom_New (fst est) (snd est)"

definition locations :: "probe \<Rightarrow> BloomFilter \<Rightarrow> byte list \<Rightarrow> nat list" where
  "locations h f key = map (\<lambda>i. h key i mod mbits f) [0..<khashes f]"

definition bloom_Test :: "probe \<Rightarrow> BloomFilter \<Rightarrow> byte list \<Rightarrow> bool" where
  "bloom_Test h f key = list_all (\<lambda>l. l \<in> bitset f) (locations h f key)"

definition bloom_Add :: "probe \<Rightarrow> BloomFilter \<Rightarrow> byte list \<Rightarrow> BloomFilter" where
  "bloom_Add h f key = f\<lparr>bitset := bitset f \<union> set (locations h f key)\<rparr>"

record DoubleBufferBloom =
  current :: BloomFilter
  previous :: BloomFilter

definition NewDoubleBufferBloom :: "nat \<times> nat \<Rightarrow> DoubleBufferBloom" where
  "NewDoubleBufferBloom est = \<lparr>current = NewWithEstimates est, previous = NewWithEstimates est\<rparr>"

definition TestAndAdd :: "probe \<Rightarrow> byte list \<Rightarrow> DoubleBufferBloom \<Rightarrow> bool \<times> DoubleBufferBloom" where
  "TestAndAdd h key dbf =
     (if bloom_Test h (current dbf) key then (True, dbf)
      else (False, dbf\<lparr>current := bloom_Add h (current dbf) key\<rparr>))"

definition Rotate :: "nat \<times> nat \<Rightarrow> DoubleBufferBloom \<Rightarrow> DoubleBufferBloom" where
  "Rotate est dbf = \<lparr>current = NewWithEstimates est, previous = current dbf\<rparr>"

text \<open>A run of \<open>TestAndAdd\<close> calls within one generation; the state after them.\<close>

definition TestAndAdd_all :: "probe \<Rightarrow> byte list list \<Rightarrow> DoubleBufferBloom \<Rightarrow> DoubleBufferBloom" where
  "TestAndAdd_all h keys dbf = fold (\<lambda>key d. snd (TestAndAdd h key d)) keys dbf"

section \<open>Behavior Analyzer (analyzer/analyzer.go)\<close>

text \<open>
  The blocklist is the map behind the atomic pointer, read as its key set; publishing a
  new map replaces the field. The queue is the buffered channel, oldest request first.
  \<open>stop\<close> tells whether the stop channel is closed and \<open>running\<close> whether the worker
  goroutine has not returned yet. \<open>waiting\<close> tells whether the worker is parked in its
  \<open>select\<close>, no case of it being ready; a send on the channel then goes to the worker
  directly, whatever the capacity of the buffer. A request that was handed over stands
  in \<open>queue\<close> like a buffered one until the worker has analyzed it. The \<open>sync.Pool\<close> of
  request objects is left out: a request taken from it has both fields overwritten
  before it is used.
\<close>

record Config =
  Window :: int
  PageThreshold :: int
  QueueCap :: int

record Request =
  IP :: string
  Path :: uint64

record Analyzer =
  cfg :: Config
  blocklist :: "string set"
  queue :: "Request list"
  bloom :: DoubleBufferBloom
  counter :: Counter
  stop :: bool
  running :: bool
  waiting :: bool

text \<open>
  \<open>hash/maphash\<close> belongs to the Go library. Both hashing helpers declare a zero
  \<open>maphash.Hash\<close>, which draws its seed when it is first written to, so the digest is a
  function of the bytes only under the seed of that one call. The parameter \<open>sum64\<close> is
  the seeded digest function of the call at hand.
\<close>

type_synonym digest = "byte list \<Rightarrow> uint64"

definition bytes_of :: "string \<Rightarrow> byte list" where
  "bytes_of s = map (\<lambda>c. of_nat (of_char c)) s"

definition u64ToBytes :: "uint64 \<Rightarrow> byte list" where
  "u64ToBytes v =
     [ucast v, ucast (drop_bit 8 v), ucast (drop_bit 16 v), ucast (drop_bit 24 v),
      ucast (drop_bit 32 v), ucast (drop_bit 40 v), ucast (drop_bit 48 v), ucast (drop_bit 56 v)]"

definition hashIPPath :: "digest \<Rightarrow> string \<Rightarrow> uint64 \<Rightarrow> uint64" where
  "hashIPPath sum64 ip pathHash = sum64 (bytes_of ip @ u64ToBytes pathHash)"

definition hashStr :: "digest \<Rightarrow> string \<Rightarrow> uint64" where
  "hashStr sum64 s = sum64 (bytes_of s)"

text \<open>\<open>make(chan *Request, cfg.QueueCap)\<close> panics for a negative capacity.\<close>

definition New :: "nat \<times> nat \<Rightarrow> Config \<Rightarrow> Analyzer option" where
  "New est c =
     (if QueueCap c < 0 then None
      else Some \<lparr>cfg = c, blocklist = {}, queue = [], bloom = NewDoubleBufferBloom est,
                 counter = NewCounter, stop = False, running = True, waiting = False\<rparr>)"

text \<open>
  The \<open>select\<close> with a \<open>default\<close> branch. A channel send is taken in two cases, tried in
  this order: a receiver is parked on the channel (which needs an empty buffer), and
  the request is handed to it; or the buffer has room. Otherwise the \<open>default\<close> branch
  puts the request back into the pool and nothing else happens.
\<close>

definition Record :: "digest \<Rightarrow> string \<Rightarrow> string \<Rightarrow> Analyzer \<Rightarrow> Analyzer" where
  "Record sum64 ip path a =
     (let req = \<lparr>IP = ip, Path = hashStr sum64 path\<rparr>
      in if waiting a \<and> queue a = [] then a\<lparr>queue := [req], waiting := False\<rparr>
         else if int (length (queue a)) < QueueCap (cfg a) then a\<lparr>queue := queue a @ [req]\<rparr>
         else a)"

definition Blocked :: "string \<Rightarrow> Analyzer \<Rightarrow> bool" where
  "Blocked ip a \<longleftrightarrow> ip \<in> blocklist a"

definition Close :: "Analyzer \<Rightarrow> Analyzer" where
  "Close a = (if stop a then a else a\<lparr>stop := True\<rparr>)"

text \<open>The copy loop of \<open>block\<close> rebuilds the old key set; the new map adds \<open>ip\<close>.\<close>

definition block :: "string \<Rightarrow> Analyzer \<Rightarrow> Analyzer" where
  "block ip a =
     (let old = blocklist a
      in if ip \<in> old then a
         else a\<lparr>blocklist := insert ip {k. k \<in> old}\<rparr>)"

definition analyze :: "probe \<Rightarrow> digest \<Rightarrow> Request \<Rightarrow> Analyzer \<Rightarrow> Analyzer" where
  "analyze h sum64 req a =
     (let key = hashIPPath sum64 (IP req) (Path req);
          (seen, bloom') = TestAndAdd h (u64ToBytes key) (bloom a)
      in if seen then a\<lparr>bloom := bloom'\<rparr>
         else
           (let (count, counter') = Visit (IP req) (counter a);
                a' = a\<lparr>bloom := bloom', counter := counter'\<rparr>
            in if int (unat count) \<ge> PageThreshold (cfg a) then block (IP req) a' else a'))"

definition rotate :: "nat \<times> nat \<Rightarrow> Analyzer \<Rightarrow> Analyzer" where
  "rotate est a = a\<lparr>bloom := Rotate est (bloom a), counter := Clear (counter a)\<rparr>"

text \<open>
  One round of the worker's \<open>select\<close>: which case fires is the choice of the scheduler
  and is given as the event. A case that is not ready (no closed stop channel, an empty
  queue) and any case after the worker has returned leave the state as it is. \<open>Parks\<close>
  is the worker reaching its \<open>select\<close> with nothing to receive and no stop signal: it
  is parked until a case becomes ready, and every case that fires ends the waiting.
\<close>

datatype worker_event = Stopped | Received digest | Tick | Parks

fun worker :: "probe \<Rightarrow> nat \<times> nat \<Rightarrow> worker_event \<Rightarrow> Analyzer \<Rightarrow> Analyzer" where
  "worker h est Stopped a =
     (if running a \<and> stop a then a\<lparr>running := False, waiting := False\<rparr> else a)"
| "worker h est (Received sum64) a =
     (if running a then
        (case queue a of
           [] \<Rightarrow> a
         | req # rest \<Rightarrow> analyze h sum64 req (a\<lparr>queue := rest, waiting := False\<rparr>))
      else a)"
| "worker h est Tick a = (if running a then rotate est (a\<lparr>waiting := False\<rparr>) else a)"
| "worker h est Parks a =
     (if running a \<and> queue a = [] \<and> \<not> stop a then a\<lparr>waiting := True\<rparr> else a)"

text \<open>Everything that can happen to an analyzer, for statements about all histories.\<close>

datatype operation =
    DoRecord digest string string
  | DoWorker worker_event
  | DoBlock string
  | DoClose

fun apply_operation :: "probe \<Rightarrow> nat \<times> nat \<Rightarrow> operation \<Rightarrow> Analyzer \<Rightarrow> Analyzer" where
  "apply_operation h est (DoRecord sum64 ip path) a = Record sum64 ip path a"
| "apply_operation h est (DoWorker ev) a = worker h est ev a"
| "apply_operation h est (DoBlock ip) a = block ip a"
| "apply_operation h est DoClose a = Close a"

definition run :: "probe \<Rightarrow> nat \<times> nat \<Rightarrow> operation list \<Rightarrow> Analyzer \<Rightarrow> Analyzer" where
  "run h est ops a = fold (apply_operation h est) ops a"

section \<open>Decision Orchestrator (limiter.go, botrate.go, config.go)\<close>

text \<open>
  The classifier (knownbots) and the token bucket (\<open>golang.org/x/time/rate\<close>) are
  dependencies. Of the classifier's result only \<open>IsBot\<close> and \<open>Status\<close> are read;
  \<open>StatusOther\<close> stands for a status value that is none of the four named constants,
  for which the \<open>switch\<close> has no case. The validator is the field \<open>kb\<close>, a function of
  the user agent and the address at the time of the call.
\<close>

datatype Status = StatusVerified | StatusPending | StatusFailed | StatusUnknown | StatusOther

record Result =
  IsBot :: bool
  Status :: Status

text \<open>
  Errors that \<open>Wait\<close> can hand out: the two errors of package \<open>context\<close>, and the
  errors that the token bucket builds itself. \<open>botrate.go\<close> declares
  \<open>var ErrLimit = context.DeadlineExceeded\<close>.
\<close>

datatype error = Canceled | DeadlineExceeded | RateError string

definition ErrLimit :: error where
  "ErrLimit = DeadlineExceeded"

text \<open>The caller's context as \<open>Wait\<close> finds it, and what its \<open>Err\<close> method reports.\<close>

datatype Context = Live | Cancelled | Expired

fun ctx_Err :: "Context \<Rightarrow> error option" where
  "ctx_Err Live = None"
| "ctx_Err Cancelled = Some Canceled"
| "ctx_Err Expired = Some DeadlineExceeded"

type_synonym Reason = string

definition ReasonNone :: Reason where
  "ReasonNone = []"

definition ReasonFakeBot :: Reason where
  "ReasonFakeBot = ''fake_bot''"

definition ReasonRateLimited :: Reason where
  "ReasonRateLimited = ''rate_limited''"

text \<open>
  The token bucket as the orchestrator uses it. A limiter object is a value of the
  type \<open>'l\<close>; \<open>lim_Allow\<close> and \<open>lim_Wait\<close> give the answer of the object together with its
  new state. They read the clock, so the record describes the bucket at one call.
\<close>

record 'l TokenBucket =
  NewLimiter :: "real \<Rightarrow> int \<Rightarrow> 'l"
  lim_Allow :: "'l \<Rightarrow> bool \<times> 'l"
  lim_Wait :: "Context \<Rightarrow> 'l \<Rightarrow> error option \<times> 'l"

record LimiterConfig = Config +
  Limit :: real

record 'l Limiter =
  lcfg :: LimiterConfig
  blocked :: "string \<rightharpoonup> 'l"
  kb :: "string \<Rightarrow> string \<Rightarrow> Result"
  analyzer :: Analyzer

text \<open>\<open>Load\<close>, then \<open>LoadOrStore\<close> of a new limiter with burst 1 when the key is absent.\<close>

definition getLimiter :: "'l TokenBucket \<Rightarrow> string \<Rightarrow> 'l Limiter \<Rightarrow> 'l \<times> 'l Limiter" where
  "getLimiter tb ip l =
     (case blocked l ip of
        Some val \<Rightarrow> (val, l)
      | None \<Rightarrow>
          (let limiter = NewLimiter tb (Limit (lcfg l)) 1
           in (limiter, l\<lparr>blocked := (blocked l)(ip \<mapsto> limiter)\<rparr>)))"

text \<open>The pool holds pointers: the call on the limiter updates the pooled object.\<close>

definition allowBlocked :: "'l TokenBucket \<Rightarrow> string \<Rightarrow> 'l Limiter \<Rightarrow> bool \<times> 'l Limiter" where
  "allowBlocked tb ip l =
     (let (limiter, l') = getLimiter tb ip l;
          (ok, limiter') = lim_Allow tb limiter
      in (ok, l'\<lparr>blocked := (blocked l')(ip \<mapsto> limiter')\<rparr>))"

definition waitBlocked ::
  "'l TokenBucket \<Rightarrow> Context \<Rightarrow> string \<Rightarrow> 'l Limiter \<Rightarrow> error option \<times> 'l Limiter" where
  "waitBlocked tb ctx ip l =
     (let (limiter, l') = getLimiter tb ip l;
          (err, limiter') = lim_Wait tb ctx limiter
      in (err, l'\<lparr>blocked := (blocked l')(ip \<mapsto> limiter')\<rparr>))"

text \<open>
  The sources hold three texts of \<open>Allow\<close> and \<open>Wait\<close>. The one that returns a reason
  next to the answer (it follows the module file in go.mod, from line 15 on) is the one
  the specification describes; it is modelled as \<open>Allow\<close> and \<open>Wait\<close>.
\<close>

definition Allow ::
  "'l TokenBucket \<Rightarrow> digest \<Rightarrow> string \<Rightarrow> string \<Rightarrow> 'l Limiter \<Rightarrow> (bool \<times> Reason) \<times> 'l Limiter" where
  "Allow tb sum64 ua ip l =
     (let botResult = kb l ua ip;
          layer2 =
            (if Blocked ip (analyzer l) then
               (let (ok, l') = allowBlocked tb ip l
                in if ok then ((True, ReasonNone), l') else ((False, ReasonRateLimited), l'))
             else ((True, ReasonNone), l\<lparr>analyzer := Record sum64 ip ua (analyzer l)\<rparr>))
      in if IsBot botResult then
           (case Status botResult of
              StatusVerified \<Rightarrow> ((True, ReasonNone), l)
            | StatusPending \<Rightarrow> ((True, ReasonNone), l)
            | StatusFailed \<Rightarrow> ((False, ReasonFakeBot), l)
            | StatusUnknown \<Rightarrow> ((False, ReasonFakeBot), l)
            | StatusOther \<Rightarrow> layer2)
         else layer2)"

definition Wait ::
  "'l TokenBucket \<Rightarrow> digest \<Rightarrow> Context \<Rightarrow> string \<Rightarrow> string \<Rightarrow> 'l Limiter
     \<Rightarrow> (error option \<times> Reason) \<times> 'l Limiter" where
  "Wait tb sum64 ctx ua ip l =
     (let botResult = kb l ua ip;
          layer2 =
            (if Blocked ip (analyzer l) then
               (let (err, l') = waitBlocked tb ctx ip l
                in if err \<noteq> None then ((err, ReasonRateLimited), l')
                   else ((Some ErrLimit, ReasonRateLimited), l'))
             else ((None, ReasonNone), l\<lparr>analyzer := Record sum64 ip ua (analyzer l)\<rparr>))
      in if IsBot botResult then
           (case Status botResult of
              StatusVerified \<Rightarrow> ((None, ReasonNone), l)
            | StatusPending \<Rightarrow> ((None, ReasonNone), l)
            | StatusFailed \<Rightarrow> ((Some ErrLimit, ReasonFakeBot), l)
            | StatusUnknown \<Rightarrow> ((Some ErrLimit, ReasonFakeBot), l)
            | StatusOther \<Rightarrow> layer2)
         else layer2)"

text \<open>
  The second text of limiter.go (from its line 146 on) returns a bare \<open>bool\<close> and a
  bare \<open>error\<close>, and hands the answer of the limiter's \<open>Wait\<close> through as it is.
\<close>

definition Allow_bool ::
  "'l TokenBucket \<Rightarrow> digest \<Rightarrow> string \<Rightarrow> string \<Rightarrow> 'l Limiter \<Rightarrow> bool \<times> 'l Limiter" where
  "Allow_bool tb sum64 ua ip l =
     (let botResult = kb l ua ip;
          layer2 =
            (if Blocked ip (analyzer l) then allowBlocked tb ip l
             else (True, l\<lparr>analyzer := Record sum64 ip ua (analyzer l)\<rparr>))
      in if IsBot botResult then
           (case Status botResult of
              StatusVerified \<Rightarrow> (True, l)
            | StatusPending \<Rightarrow> (True, l)
            | StatusFailed \<Rightarrow> (False, l)
            | StatusUnknown \<Rightarrow> (False, l)
            | StatusOther \<Rightarrow> layer2)
         else layer2)"

definition Wait_error ::
  "'l TokenBucket \<Rightarrow> digest \<Rightarrow> Context \<Rightarrow> string \<Rightarrow> string \<Rightarrow> 'l Limiter
     \<Rightarrow> error option \<times> 'l Limiter" where
  "Wait_error tb sum64 ctx ua ip l =
     (let botResult = kb l ua ip;
          layer2 =
            (if Blocked ip (analyzer l) then waitBlocked tb ctx ip l
             else (None, l\<lparr>analyzer := Record sum64 ip ua (analyzer l)\<rparr>))
      in if IsBot botResult then
           (case Status botResult of
              StatusVerified \<Rightarrow> (None, l)
            | StatusPending \<Rightarrow> (None, l)
            | StatusFailed \<Rightarrow> (Some ErrLimit, l)
            | StatusUnknown \<Rightarrow> (Some ErrLimit, l)
            | StatusOther \<Rightarrow> layer2)
         else layer2)"

text \<open>
  The first text of limiter.go (its lines 1 to 145) knows verified bots only: every
  other bot is sent to the limiter pool.
\<close>

definition Allow_first ::
  "'l TokenBucket \<Rightarrow> digest \<Rightarrow> string \<Rightarrow> string \<Rightarrow> 'l Limiter \<Rightarrow> bool \<times> 'l Limiter" where
  "Allow_first tb sum64 ua ip l =
     (let botResult = kb l ua ip
      in if IsBot botResult then
           (if Status botResult = StatusVerified then (True, l) else allowBlocked tb ip l)
         else if Blocked ip (analyzer l) then allowBlocked tb ip l
         else (True, l\<lparr>analyzer := Record sum64 ip ua (analyzer l)\<rparr>))"

definition Wait_first ::
  "'l TokenBucket \<Rightarrow> digest \<Rightarrow> Context \<Rightarrow> string \<Rightarrow> string \<Rightarrow> 'l Limiter
     \<Rightarrow> error option \<times> 'l Limiter" where
  "Wait_first tb sum64 ctx ua ip l =
     (let botResult = kb l ua ip
      in if IsBot botResult then
           (if Status botResult = StatusVerified then (None, l) else waitBlocked tb ctx ip l)
         else if Blocked ip (analyzer l) then waitBlocked tb ctx ip l
         else (None, l\<lparr>analyzer := Record sum64 ip ua (analyzer l)\<rparr>))"

text \<open>\<open>Limiter.Close\<close> stops the analyzer and empties the pool.\<close>

definition Limiter_Close :: "'l Limiter \<Rightarrow> 'l Limiter" where
  "Limiter_Close l = l\<lparr>analyzer := Close (analyzer l), blocked := Map.empty\<rparr>"

section \<open>Example values\<close>

text \<open>
  A digest that adds the bytes up, a probe function that reads the first byte of the
  key, and a small analyzer: the concrete inputs at which the theorems below are applied.
\<close>

definition ex_digest :: digest where
  "ex_digest bs = of_nat (sum_list (map unat bs))"

definition ex_probe :: probe where
  "ex_probe key i = (case key of [] \<Rightarrow> i | b # _ \<Rightarrow> unat b + i)"

definition ex_cfg :: Config where
  "ex_cfg = \<lparr>Window = 1000000000, PageThreshold = 2, QueueCap = 2\<rparr>"

definition ex_analyzer :: Analyzer where
  "ex_analyzer =
     \<lparr>cfg = ex_cfg, blocklist = {}, queue = [], bloom = NewDoubleBufferBloom (16, 2),
      counter = NewCounter, stop = False, running = True, waiting = False\<rparr>"

definition ex_req_a :: Request where
  "ex_req_a = \<lparr>IP = ''1.2.3.4'', Path = hashStr ex_digest ''/a''\<rparr>"

definition ex_req_b :: Request where
  "ex_req_b = \<lparr>IP = ''1.2.3.4'', Path = hashStr ex_digest ''/b''\<rparr>"

definition ex_after_a :: Analyzer where
  "ex_after_a = analyze ex_probe ex_digest ex_req_a ex_analyzer"

definition ex_blocked :: Analyzer where
  "ex_blocked = analyze ex_probe ex_digest ex_req_b ex_after_a"

text \<open>
  An analyzer with an unbuffered queue, as \<open>New\<close> builds it for \<open>QueueCap = 0\<close>, with the
  worker parked in its \<open>select\<close>.
\<close>

definition ex_unbuffered :: Analyzer where
  "ex_unbuffered = ex_analyzer\<lparr>cfg := ex_cfg\<lparr>QueueCap := 0\<rparr>, waiting := True\<rparr>"

text \<open>
  A token bucket that counts whole tokens. Its wait returns the context's error when
  the context has ended, takes a token when there is one, and otherwise gives up at
  once with an error of its own, as \<open>rate.Limiter.Wait\<close> does when the next token is
  due after the context's deadline.
\<close>

definition ex_bucket :: "nat TokenBucket" where
  "ex_bucket =
     \<lparr>NewLimiter = (\<lambda>r b. nat b),
      lim_Allow = (\<lambda>t. (0 < t, t - 1)),
      lim_Wait = (\<lambda>ctx t.
        case ctx_Err ctx of
          Some e \<Rightarrow> (Some e, t)
        | None \<Rightarrow>
            if 0 < t then (None, t - 1)
            else (Some (RateError ''rate: Wait(n=1) would exceed context deadline''), t))\<rparr>"

definition ex_kb :: "string \<Rightarrow> string \<Rightarrow> Result" where
  "ex_kb ua ip =
     (if ua = ''Googlebot/2.1'' then
        (if ip = ''66.249.66.1'' then \<lparr>IsBot = True, Status = StatusVerified\<rparr>
         else \<lparr>IsBot = True, Status = StatusFailed\<rparr>)
      else if ua = ''bingbot/2.0'' then \<lparr>IsBot = True, Status = StatusPending\<rparr>
      else \<lparr>IsBot = False, Status = StatusUnknown\<rparr>)"

definition ex_limiter :: "nat Limiter" where
  "ex_limiter =
     \<lparr>lcfg = \<lparr>Window = 1000000000, PageThreshold = 2, QueueCap = 2, Limit = 1 / 600\<rparr>,
      blocked = Map.empty, kb = ex_kb, analyzer = ex_blocked\<rparr>"

text \<open>The same limiter after the blocked client has used up its token.\<close>

definition ex_drained :: "nat Limiter" where
  "ex_drained = ex_limiter\<lparr>blocked := [''1.2.3.4'' \<mapsto> 0]\<rparr>"

section \<open>Properties of the Visit Counter\<close>

lemma Visit_known:
  "index c ip = Some e \<Longrightarrow>
   Visit ip c = (Count ip c + 1,
                 c\<lparr>data := (data c)(ip \<mapsto> Count ip c + 1), lru := MoveToFront e (lru c)\<rparr>)"
  by (simp add: Visit_def Let_def)

lemma Visit_fresh_fst: "index c ip = None \<Longrightarrow> fst (Visit ip c) = 1"
  by (simp add: Visit_def Let_def)

lemma Visit_fresh_entry:
  "index c ip = None \<Longrightarrow>
   index (snd (Visit ip c)) ip = Some ip \<and> data (snd (Visit ip c)) ip = Some 1"
  by (simp add: Visit_def Let_def)

lemma Visit_known_entry:
  assumes "index c ip = Some ip" and "data c ip = Some v"
  shows "fst (Visit ip c) = v + 1"
    and "index (snd (Visit ip c)) ip = Some ip"
    and "data (snd (Visit ip c)) ip = Some (v + 1)"
  using assms by (simp_all add: Visit_def Let_def Count_def)

lemma repeat_Visit_entry:
  "index c ip = None \<Longrightarrow>
   index (repeat_Visit (Suc n) ip c) ip = Some ip \<and>
   data (repeat_Visit (Suc n) ip c) ip = Some (of_nat (Suc n))"
proof (induction n)
  case 0
  then show ?case using Visit_fresh_entry [of c ip] by simp
next
  case (Suc n)
  define s where "s = repeat_Visit (Suc n) ip c"
  have ix: "index s ip = Some ip" and dt: "data s ip = Some (of_nat (Suc n))"
    using Suc by (simp_all add: s_def)
  have "index (snd (Visit ip s)) ip = Some ip"
    and "data (snd (Visit ip s)) ip = Some (of_nat (Suc n) + 1)"
    using Visit_known_entry [OF ix dt] by simp_all
  then show ?case by (simp add: s_def add.commute)
qed

lemma nth_Visit_returns:
  assumes "index c ip = None"
  shows "fst (Visit ip (repeat_Visit n ip c)) = of_nat (Suc n)"
proof (cases n)
  case 0
  then show ?thesis using assms Visit_fresh_fst by simp
next
  case (Suc m)
  define s where "s = repeat_Visit (Suc m) ip c"
  have ix: "index s ip = Some ip" and dt: "data s ip = Some (of_nat (Suc m))"
    using repeat_Visit_entry [OF assms, of m] by (simp_all add: s_def)
  have "fst (Visit ip s) = of_nat (Suc m) + 1"
    using Visit_known_entry(1) [OF ix dt] .
  then show ?thesis using Suc by (simp add: s_def add.commute)
qed

text \<open>
  C8 (as amended). For a client that has no entry, the first \<open>Visit\<close> returns 1, and the
  \<open>n\<close>-th consecutive \<open>Visit\<close> of that client, with no \<open>Clear\<close> or rotation in between,
  returns \<open>n\<close> reduced modulo 65536, the count being a \<open>uint16\<close>: it returns \<open>n\<close> itself
  for every \<open>n\<close> up to 65535. (The call counted here is call number \<open>Suc n\<close>.)
\<close>

theorem Visit_nth_call:
  assumes "index c ip = None"
  shows "fst (Visit ip c) = 1 \<and>
         unat (fst (Visit ip (repeat_Visit n ip c))) = Suc n mod 65536 \<and>
         (Suc n \<le> 65535 \<longrightarrow> unat (fst (Visit ip (repeat_Visit n ip c))) = Suc n)"
proof -
  have r: "fst (Visit ip (repeat_Visit n ip c)) = of_nat (Suc n)"
    using nth_Visit_returns [OF assms] .
  have u: "unat (fst (Visit ip (repeat_Visit n ip c))) = Suc n mod 65536"
    unfolding r by (simp del: of_nat_Suc add: unat_of_nat)
  show ?thesis
    using Visit_fresh_fst [OF assms] u by simp
qed

theorem Visit_nth_call_witness:
  "index NewCounter ''1.2.3.4'' = None \<and>
   fst (Visit ''1.2.3.4'' NewCounter) = 1 \<and>
   unat (fst (Visit ''1.2.3.4'' (repeat_Visit 2 ''1.2.3.4'' NewCounter))) = 3"
  using Visit_nth_call [of NewCounter "''1.2.3.4''" 2]
  by (simp add: NewCounter_def)

text \<open>
  The claim as it is written fails at the 65536th consecutive call: the count wraps
  around and the call returns 0.
\<close>

theorem Visit_65536th_call_counterexample:
  "index NewCounter ''1.2.3.4'' = None \<and>
   unat (fst (Visit ''1.2.3.4'' (repeat_Visit 65535 ''1.2.3.4'' NewCounter))) \<noteq> 65536 \<and>
   fst (Visit ''1.2.3.4'' (repeat_Visit 65535 ''1.2.3.4'' NewCounter)) = 0"
proof -
  have ix: "index NewCounter ''1.2.3.4'' = None"
    by (simp add: NewCounter_def)
  have "fst (Visit ''1.2.3.4'' (repeat_Visit 65535 ''1.2.3.4'' NewCounter)) = (of_nat (Suc 65535) :: uint16)"
    using nth_Visit_returns [OF ix] .
  moreover have "(of_nat (Suc 65535) :: uint16) = 0"
    by simp
  ultimately show ?thesis using ix by simp
qed

lemma counter_inv_NewCounter: "counter_inv (NewCounter\<lparr>maxSize := n\<rparr>)"
  by (simp add: counter_inv_def NewCounter_def)

lemma counter_inv_size: "counter_inv c \<Longrightarrow> card (dom (data c)) = length (lru c)"
  by (simp add: counter_inv_def distinct_card)

lemma set_butlast_distinct: "distinct l \<Longrightarrow> l \<noteq> [] \<Longrightarrow> set (butlast l) = set l - {last l}"
  by (induction l rule: rev_induct) auto

lemma counter_inv_evict_tail: "counter_inv c \<Longrightarrow> counter_inv (evict_tail c)"
  by (auto simp: counter_inv_def evict_tail_def Back_def distinct_butlast set_butlast_distinct
      dest: in_set_butlastD)

lemma evict_tail_maxSize: "maxSize (evict_tail c) = maxSize c"
  by (simp add: evict_tail_def Back_def)

lemma evict_tail_lru: "lru (evict_tail c) = butlast (lru c)"
  by (simp add: evict_tail_def Back_def)

lemma counter_inv_Visit: "counter_inv c \<Longrightarrow> counter_inv (snd (Visit ip c))"
proof -
  assume inv: "counter_inv c"
  show ?thesis
  proof (cases "index c ip")
    case None
    define c1 where "c1 = (if int (card (dom (data c))) \<ge> maxSize c then evict_tail c else c)"
    have inv1: "counter_inv c1"
      using inv counter_inv_evict_tail by (simp add: c1_def)
    have "ip \<notin> set (lru c)" using inv None by (auto simp: counter_inv_def split: if_splits)
    then have notin: "ip \<notin> set (lru c1)"
      by (auto simp: c1_def evict_tail_lru dest: in_set_butlastD)
    have "snd (Visit ip c) = c1\<lparr>lru := ip # lru c1, data := (data c1)(ip \<mapsto> 1), index := (index c1)(ip \<mapsto> ip)\<rparr>"
      using None by (simp add: Visit_def Let_def c1_def)
    then show ?thesis using inv1 notin by (auto simp: counter_inv_def)
  next
    case (Some e)
    then have e: "e = ip" and mem: "ip \<in> set (lru c)"
      using inv by (auto simp: counter_inv_def split: if_splits)
    show ?thesis
      using Visit_known [OF Some] inv e mem
      by (auto simp: counter_inv_def MoveToFront_def)
  qed
qed

lemma Visit_maxSize: "maxSize (snd (Visit ip c)) = maxSize c"
  by (simp add: Visit_def Let_def evict_tail_maxSize split: option.splits)

lemma Visit_bound:
  assumes inv: "counter_inv c" and N: "0 < N" and m: "maxSize c = int N"
    and le: "length (lru c) \<le> N"
  shows "length (lru (snd (Visit ip c))) \<le> N"
proof (cases "index c ip")
  case None
  show ?thesis
  proof (cases "length (lru c) = N")
    case True
    then have "int (card (dom (data c))) \<ge> maxSize c"
      using counter_inv_size [OF inv] m by simp
    then have "lru (snd (Visit ip c)) = ip # butlast (lru c)"
      using None by (simp add: Visit_def Let_def evict_tail_lru)
    then show ?thesis using True N by simp
  next
    case False
    then have lt: "length (lru c) < N" using le by simp
    then have "\<not> int (card (dom (data c))) \<ge> maxSize c"
      using counter_inv_size [OF inv] m by simp
    then have "lru (snd (Visit ip c)) = ip # lru c"
      using None by (simp add: Visit_def Let_def)
    then show ?thesis using lt by simp
  qed
next
  case (Some e)
  then have "length (lru (snd (Visit ip c))) = length (lru c)"
    using Visit_known [OF Some] length_pos_if_in_set [of e "lru c"]
    by (auto simp: MoveToFront_def length_remove1)
  then show ?thesis using le by simp
qed

lemma visit_all_snoc: "visit_all (xs @ [x]) c = snd (Visit x (visit_all xs c))"
  by (simp add: visit_all_def)

lemma visit_all_inv_bound:
  assumes "0 < N"
  shows "counter_inv (visit_all js (NewCounter\<lparr>maxSize := int N\<rparr>)) \<and>
         maxSize (visit_all js (NewCounter\<lparr>maxSize := int N\<rparr>)) = int N \<and>
         length (lru (visit_all js (NewCounter\<lparr>maxSize := int N\<rparr>))) \<le> N"
proof (induction js rule: rev_induct)
  case Nil
  then show ?case by (simp add: visit_all_def counter_inv_NewCounter) (simp add: NewCounter_def)
next
  case (snoc x xs)
  then show ?case
    using assms by (simp add: visit_all_snoc counter_inv_Visit Visit_maxSize Visit_bound)
qed

lemma visit_all_fresh:
  assumes N: "0 < N"
  shows "distinct xs \<Longrightarrow> length xs \<le> N \<Longrightarrow>
         lru (visit_all xs (NewCounter\<lparr>maxSize := int N\<rparr>)) = rev xs \<and>
         (\<forall>ip. data (visit_all xs (NewCounter\<lparr>maxSize := int N\<rparr>)) ip =
               (if ip \<in> set xs then Some 1 else None))"
proof (induction xs rule: rev_induct)
  case Nil
  then show ?case by (simp add: visit_all_def NewCounter_def)
next
  case (snoc x xs)
  define s where "s = visit_all xs (NewCounter\<lparr>maxSize := int N\<rparr>)"
  have fresh: "x \<notin> set xs" and lt: "length xs < N" and d: "distinct xs"
    using snoc.prems by simp_all
  have l: "lru s = rev xs"
    and dt: "\<And>ip. data s ip = (if ip \<in> set xs then Some 1 else None)"
    using snoc.IH d lt by (simp_all add: s_def)
  have inv: "counter_inv s" and m: "maxSize s = int N"
    using visit_all_inv_bound [OF N, of xs] by (simp_all add: s_def)
  have ix: "index s x = None"
    using inv fresh l by (simp add: counter_inv_def)
  have "\<not> int (card (dom (data s))) \<ge> maxSize s"
    using counter_inv_size [OF inv] l m lt by simp
  then have v: "snd (Visit x s) = s\<lparr>lru := x # lru s, data := (data s)(x \<mapsto> 1), index := (index s)(x \<mapsto> x)\<rparr>"
    using ix by (simp add: Visit_def Let_def)
  show ?case
    unfolding visit_all_snoc s_def [symmetric] v using l dt by simp
qed

lemma visit_all_overflow:
  assumes N: "0 < N" and d: "distinct (xs @ [y])" and len: "length xs = N"
  shows "data (visit_all (xs @ [y]) (NewCounter\<lparr>maxSize := int N\<rparr>)) =
         (\<lambda>ip. if ip = hd xs then None else if ip \<in> set xs \<or> ip = y then Some 1 else None)"
proof -
  define s where "s = visit_all xs (NewCounter\<lparr>maxSize := int N\<rparr>)"
  have fresh: "y \<notin> set xs" and dx: "distinct xs" and ne: "xs \<noteq> []"
    using d len N by auto
  have l: "lru s = rev xs"
    and dt: "\<And>ip. data s ip = (if ip \<in> set xs then Some 1 else None)"
    using visit_all_fresh [OF N dx] len by (simp_all add: s_def)
  have inv: "counter_inv s" and m: "maxSize s = int N"
    using visit_all_inv_bound [OF N, of xs] by (simp_all add: s_def)
  have ix: "index s y = None"
    using inv fresh l by (simp add: counter_inv_def)
  have full: "int (card (dom (data s))) \<ge> maxSize s"
    using counter_inv_size [OF inv] l m len by simp
  have tail: "Back (lru s) = Some (hd xs)"
    using ne l by (simp add: Back_def last_rev)
  have "data (snd (Visit y s)) = ((data s)(hd xs := None))(y \<mapsto> 1)"
    using ix full tail by (simp add: Visit_def Let_def evict_tail_def)
  then show ?thesis
    unfolding visit_all_snoc s_def [symmetric] using dt fresh ne
    by (auto simp: fun_eq_iff)
qed

text \<open>
  C9. With capacity \<open>N\<close> (at least 1), after \<open>N + 1\<close> distinct clients have been visited
  once each, the client visited first, which is the least recently visited of the
  original \<open>N\<close>, has been evicted and \<open>Count\<close> returns 0 for it; the other \<open>N\<close> clients
  still count 1. Whatever sequence of clients is visited, the counter never holds more
  than \<open>N\<close> of them.
\<close>

theorem Counter_capacity_eviction:
  assumes "0 < N" and "distinct ips" and "length ips = Suc N"
  shows "Count (hd ips) (visit_all ips (NewCounter\<lparr>maxSize := int N\<rparr>)) = 0 \<and>
         (\<forall>ip \<in> set (tl ips). Count ip (visit_all ips (NewCounter\<lparr>maxSize := int N\<rparr>)) = 1) \<and>
         (\<forall>js. card (dom (data (visit_all js (NewCounter\<lparr>maxSize := int N\<rparr>)))) \<le> N)"
proof -
  obtain xs y where ips: "ips = xs @ [y]"
    using assms(3) by (cases ips rule: rev_cases) auto
  have len: "length xs = N" using assms(3) ips by simp
  have ne: "xs \<noteq> []" using len assms(1) by auto
  have d: "distinct (xs @ [y])" using assms(2) ips by simp
  have dt: "data (visit_all ips (NewCounter\<lparr>maxSize := int N\<rparr>)) =
         (\<lambda>ip. if ip = hd xs then None else if ip \<in> set xs \<or> ip = y then Some 1 else None)"
    using visit_all_overflow [OF assms(1) d len] ips by simp
  have hd: "hd ips = hd xs" using ips ne by simp
  have tl: "set (tl ips) = set (tl xs) \<union> {y}" using ips ne by simp
  have nothd: "\<And>ip. ip \<in> set (tl xs) \<Longrightarrow> ip \<noteq> hd xs \<and> ip \<in> set xs"
    using d ne by (cases xs) auto
  have yhd: "y \<noteq> hd xs" using d ne by (cases xs) auto
  have a: "Count (hd ips) (visit_all ips (NewCounter\<lparr>maxSize := int N\<rparr>)) = 0"
    by (simp add: Count_def dt hd)
  have b: "\<forall>ip \<in> set (tl ips). Count ip (visit_all ips (NewCounter\<lparr>maxSize := int N\<rparr>)) = 1"
    using nothd yhd by (auto simp: Count_def dt tl)
  have c: "\<forall>js. card (dom (data (visit_all js (NewCounter\<lparr>maxSize := int N\<rparr>)))) \<le> N"
    using visit_all_inv_bound [OF assms(1)] counter_inv_size by simp
  show ?thesis using a b c by blast
qed

theorem Counter_capacity_eviction_witness:
  "distinct [''a'', ''b'', ''c''] \<and>
   Count ''a'' (visit_all [''a'', ''b'', ''c''] (NewCounter\<lparr>maxSize := 2\<rparr>)) = 0 \<and>
   Count ''b'' (visit_all [''a'', ''b'', ''c''] (NewCounter\<lparr>maxSize := 2\<rparr>)) = 1 \<and>
   Count ''c'' (visit_all [''a'', ''b'', ''c''] (NewCounter\<lparr>maxSize := 2\<rparr>)) = 1 \<and>
   card (dom (data (visit_all [''a'', ''b'', ''c''] (NewCounter\<lparr>maxSize := 2\<rparr>)))) \<le> 2"
  using Counter_capacity_eviction [of 2 "[''a'', ''b'', ''c'']"]
  by simp

text \<open>
  With capacity 0 nothing can be evicted from the empty list, and the entry is stored.
\<close>

lemma Counter_zero_capacity:
  "card (dom (data (visit_all [''a''] (NewCounter\<lparr>maxSize := 0\<rparr>)))) = 1"
  by (simp add: visit_all_def Visit_def NewCounter_def Count_def evict_tail_def Back_def Let_def)


section \<open>Properties of the Dedup Filter\<close>

lemma bloom_Test_fresh: "\<not> bloom_Test h (NewWithEstimates est) key"
proof -
  have "[0..<max (Suc 0) (snd est)] = 0 # [Suc 0..<max (Suc 0) (snd est)]"
    by (simp add: upt_conv_Cons)
  then show ?thesis
    by (simp add: bloom_Test_def NewWithEstimates_def bloom_New_def locations_def)
qed

lemma bloom_Add_sizes:
  "mbits (bloom_Add h f key) = mbits f \<and> khashes (bloom_Add h f key) = khashes f"
  by (simp add: bloom_Add_def)

lemma locations_bloom_Add: "locations h (bloom_Add h f k') key = locations h f key"
  by (simp add: locations_def bloom_Add_def)

lemma bloom_Test_after_Add: "bloom_Test h (bloom_Add h f key) key"
  by (simp add: bloom_Test_def locations_bloom_Add list_all_iff) (simp add: bloom_Add_def)

lemma bloom_Test_mono: "bloom_Test h f key \<Longrightarrow> bloom_Test h (bloom_Add h f k') key"
  by (simp add: bloom_Test_def locations_bloom_Add list_all_iff) (simp add: bloom_Add_def)

lemma TestAndAdd_inserts: "bloom_Test h (current (snd (TestAndAdd h key d))) key"
  by (simp add: TestAndAdd_def bloom_Test_after_Add)

lemma TestAndAdd_keeps:
  "bloom_Test h (current d) key \<Longrightarrow> bloom_Test h (current (snd (TestAndAdd h k' d))) key"
  by (simp add: TestAndAdd_def bloom_Test_mono)

lemma TestAndAdd_all_keeps:
  "bloom_Test h (current d) key \<Longrightarrow> bloom_Test h (current (TestAndAdd_all h keys d)) key"
proof (induction keys arbitrary: d)
  case Nil
  then show ?case by (simp add: TestAndAdd_all_def)
next
  case (Cons k' keys)
  have "bloom_Test h (current (snd (TestAndAdd h k' d))) key"
    using Cons.prems by (rule TestAndAdd_keeps)
  then have "bloom_Test h (current (TestAndAdd_all h keys (snd (TestAndAdd h k' d)))) key"
    by (rule Cons.IH)
  then show ?case by (simp add: TestAndAdd_all_def)
qed

lemma TestAndAdd_seen: "bloom_Test h (current d) key \<Longrightarrow> TestAndAdd h key d = (True, d)"
  by (simp add: TestAndAdd_def)

text \<open>
  C7. On a fresh generation (a new filter pair, or the pair right after \<open>Rotate\<close>)
  \<open>TestAndAdd\<close> returns false for every key. Once \<open>TestAndAdd\<close> has been applied to a
  key, every later \<open>TestAndAdd\<close> of that key in the same generation, whatever other keys
  were tested and added in between, returns true and leaves the filter pair as it is:
  a key that was inserted is never reported unseen.
\<close>

theorem TestAndAdd_generation:
  "fst (TestAndAdd h key (NewDoubleBufferBloom est)) = False \<and>
   fst (TestAndAdd h key (Rotate est d)) = False \<and>
   TestAndAdd h key (TestAndAdd_all h keys (snd (TestAndAdd h key d))) =
     (True, TestAndAdd_all h keys (snd (TestAndAdd h key d)))"
proof -
  have a: "fst (TestAndAdd h key (NewDoubleBufferBloom est)) = False"
    by (simp add: TestAndAdd_def NewDoubleBufferBloom_def bloom_Test_fresh)
  have b: "fst (TestAndAdd h key (Rotate est d)) = False"
    by (simp add: TestAndAdd_def Rotate_def bloom_Test_fresh)
  have "bloom_Test h (current (TestAndAdd_all h keys (snd (TestAndAdd h key d)))) key"
    using TestAndAdd_inserts by (rule TestAndAdd_all_keeps)
  then have c: "TestAndAdd h key (TestAndAdd_all h keys (snd (TestAndAdd h key d))) =
     (True, TestAndAdd_all h keys (snd (TestAndAdd h key d)))"
    by (rule TestAndAdd_seen)
  show ?thesis using a b c by simp
qed

text \<open>
  The converse fails, as it may for a probabilistic set: with a probe function that
  only looks at the length of the key, a key that was never inserted is reported seen.
\<close>

lemma TestAndAdd_false_positive:
  "fst (TestAndAdd (\<lambda>key i. length key + i) [7, 7]
         (snd (TestAndAdd (\<lambda>key i. length key + i) [1, 2] (NewDoubleBufferBloom (8, 2))))) = True"
  by (simp add: TestAndAdd_def NewDoubleBufferBloom_def NewWithEstimates_def bloom_New_def
      bloom_Test_def bloom_Add_def locations_def upt_conv_Cons)


section \<open>Properties of the Behavior Analyzer\<close>

lemmas ex_defs = ex_analyzer_def ex_cfg_def ex_digest_def ex_probe_def ex_req_a_def ex_req_b_def
  hashStr_def hashIPPath_def u64ToBytes_def bytes_of_def

lemmas eval_defs = analyze_def TestAndAdd_def NewDoubleBufferBloom_def NewWithEstimates_def
  bloom_New_def bloom_Test_def bloom_Add_def locations_def upt_conv_Cons Visit_def
  NewCounter_def Count_def evict_tail_def Back_def block_def Let_def MoveToFront_def

lemma ex_after_a_value:
  "ex_after_a =
     ex_analyzer\<lparr>bloom := \<lparr>current = \<lparr>mbits = 16, khashes = 2, bitset = {4, 5}\<rparr>,
                             previous = NewWithEstimates (16, 2)\<rparr>,
                  counter := \<lparr>maxSize = 100000, data = [''1.2.3.4'' \<mapsto> 1], lru = [''1.2.3.4''],
                              index = [''1.2.3.4'' \<mapsto> ''1.2.3.4'']\<rparr>\<rparr>"
  by (simp add: ex_after_a_def ex_defs eval_defs)

lemma ex_after_a_inv: "counter_inv (counter ex_after_a)"
  by (simp add: ex_after_a_value counter_inv_def)

lemma Record_cases:
  "Record s ip path a =
     (if waiting a \<and> queue a = [] then a\<lparr>queue := [\<lparr>IP = ip, Path = hashStr s path\<rparr>], waiting := False\<rparr>
      else if int (length (queue a)) < QueueCap (cfg a)
      then a\<lparr>queue := queue a @ [\<lparr>IP = ip, Path = hashStr s path\<rparr>]\<rparr> else a)"
  by (simp add: Record_def Let_def)

text \<open>
  C6 (as amended). \<open>Record\<close> is a total function of the analyzer's state, so the caller
  always gets control back. The observation is enqueued when the queue has free
  capacity. It is also taken when the worker is parked waiting to receive: it is handed
  to the worker, and with \<open>QueueCap = 0\<close> that is the only way in. When neither holds,
  the state is returned as it is; for a positive \<open>QueueCap\<close> that is exactly when the
  queue is full. The blocklist, the counter, the filter, the configuration and the stop
  flag are untouched in every case.
\<close>

theorem Record_enqueue_or_drop:
  "(waiting a \<and> queue a = [] \<longrightarrow>
      Record s ip path a = a\<lparr>queue := [\<lparr>IP = ip, Path = hashStr s path\<rparr>], waiting := False\<rparr>) \<and>
   (int (length (queue a)) < QueueCap (cfg a) \<longrightarrow>
      queue (Record s ip path a) = queue a @ [\<lparr>IP = ip, Path = hashStr s path\<rparr>]) \<and>
   (\<not> (waiting a \<and> queue a = []) \<and> QueueCap (cfg a) \<le> int (length (queue a)) \<longrightarrow>
      Record s ip path a = a) \<and>
   (0 < QueueCap (cfg a) \<and> QueueCap (cfg a) \<le> int (length (queue a)) \<longrightarrow>
      Record s ip path a = a) \<and>
   blocklist (Record s ip path a) = blocklist a \<and>
   counter (Record s ip path a) = counter a \<and>
   bloom (Record s ip path a) = bloom a \<and>
   cfg (Record s ip path a) = cfg a \<and>
   stop (Record s ip path a) = stop a"
proof -
  have full: "0 < QueueCap (cfg a) \<and> QueueCap (cfg a) \<le> int (length (queue a)) \<Longrightarrow> queue a \<noteq> []"
    by auto
  show ?thesis
    using full by (auto simp: Record_cases)
qed

theorem Record_enqueue_or_drop_witness:
  "Record ex_digest ''1.2.3.4'' ''/a'' ex_analyzer = ex_analyzer\<lparr>queue := [ex_req_a]\<rparr> \<and>
   Record ex_digest ''1.2.3.4'' ''/a'' (ex_analyzer\<lparr>queue := [ex_req_a, ex_req_b]\<rparr>) =
     ex_analyzer\<lparr>queue := [ex_req_a, ex_req_b]\<rparr> \<and>
   Record ex_digest ''1.2.3.4'' ''/a'' ex_unbuffered =
     ex_unbuffered\<lparr>queue := [ex_req_a], waiting := False\<rparr>"
proof -
  have free: "queue (Record ex_digest ''1.2.3.4'' ''/a'' ex_analyzer) = [ex_req_a]"
    using Record_enqueue_or_drop [of ex_analyzer ex_digest "''1.2.3.4''" "''/a''"]
    by (simp add: ex_analyzer_def ex_cfg_def ex_req_a_def)
  have rest: "Record ex_digest ''1.2.3.4'' ''/a'' ex_analyzer = ex_analyzer\<lparr>queue := [ex_req_a]\<rparr>"
    using free by (simp add: Record_cases ex_analyzer_def ex_cfg_def)
  have dropped: "Record ex_digest ''1.2.3.4'' ''/a'' (ex_analyzer\<lparr>queue := [ex_req_a, ex_req_b]\<rparr>) =
     ex_analyzer\<lparr>queue := [ex_req_a, ex_req_b]\<rparr>"
    using Record_enqueue_or_drop [of "ex_analyzer\<lparr>queue := [ex_req_a, ex_req_b]\<rparr>" ex_digest
        "''1.2.3.4''" "''/a''"]
    by (simp add: ex_analyzer_def ex_cfg_def)
  have handed: "Record ex_digest ''1.2.3.4'' ''/a'' ex_unbuffered =
     ex_unbuffered\<lparr>queue := [ex_req_a], waiting := False\<rparr>"
    using Record_enqueue_or_drop [of ex_unbuffered ex_digest "''1.2.3.4''" "''/a''"]
    by (simp add: ex_unbuffered_def ex_analyzer_def ex_req_a_def)
  show ?thesis using rest dropped handed by simp
qed

text \<open>
  The claim as it is written fails for an unbuffered queue. \<open>New\<close> accepts
  \<open>QueueCap = 0\<close>; once the worker is parked, the queue has no free capacity, and still
  the observation is not dropped: it is handed to the worker, which analyzes it and
  counts the client.
\<close>

theorem Record_unbuffered_counterexample:
  "New (16, 2) (ex_cfg\<lparr>QueueCap := 0\<rparr>) = Some (ex_unbuffered\<lparr>waiting := False\<rparr>) \<and>
   worker ex_probe (16, 2) Parks (ex_unbuffered\<lparr>waiting := False\<rparr>) = ex_unbuffered \<and>
   QueueCap (cfg ex_unbuffered) \<le> int (length (queue ex_unbuffered)) \<and>
   Record ex_digest ''1.2.3.4'' ''/a'' ex_unbuffered \<noteq> ex_unbuffered \<and>
   queue (Record ex_digest ''1.2.3.4'' ''/a'' ex_unbuffered) = [ex_req_a] \<and>
   Count ''1.2.3.4''
     (counter (worker ex_probe (16, 2) (Received ex_digest)
        (Record ex_digest ''1.2.3.4'' ''/a'' ex_unbuffered))) = 1"
proof -
  have r: "Record ex_digest ''1.2.3.4'' ''/a'' ex_unbuffered =
           ex_unbuffered\<lparr>queue := [ex_req_a], waiting := False\<rparr>"
    by (simp add: Record_cases ex_unbuffered_def ex_analyzer_def ex_req_a_def)
  have n: "New (16, 2) (ex_cfg\<lparr>QueueCap := 0\<rparr>) = Some (ex_unbuffered\<lparr>waiting := False\<rparr>)"
    by (simp add: New_def ex_unbuffered_def ex_analyzer_def ex_cfg_def)
  have p: "worker ex_probe (16, 2) Parks (ex_unbuffered\<lparr>waiting := False\<rparr>) = ex_unbuffered"
    by (simp add: ex_unbuffered_def ex_analyzer_def)
  have c: "Count ''1.2.3.4''
     (counter (worker ex_probe (16, 2) (Received ex_digest)
        (ex_unbuffered\<lparr>queue := [ex_req_a], waiting := False\<rparr>))) = 1"
    by (simp add: ex_unbuffered_def) (simp add: ex_defs eval_defs)
  have d: "ex_unbuffered\<lparr>queue := [ex_req_a], waiting := False\<rparr> \<noteq> ex_unbuffered"
    by (simp add: ex_unbuffered_def ex_analyzer_def)
  show ?thesis
    using n p c d by (simp add: r) (simp add: ex_unbuffered_def ex_analyzer_def ex_cfg_def)
qed

lemma block_blocklist: "blocklist (block ip a) = insert ip (blocklist a)"
  by (auto simp: block_def Let_def)

lemma block_others:
  "cfg (block ip a) = cfg a \<and> queue (block ip a) = queue a \<and> bloom (block ip a) = bloom a \<and>
   counter (block ip a) = counter a \<and> stop (block ip a) = stop a \<and>
   running (block ip a) = running a \<and> waiting (block ip a) = waiting a"
  by (simp add: block_def Let_def)

lemma TestAndAdd_seen_same: "fst (TestAndAdd h key d) \<Longrightarrow> snd (TestAndAdd h key d) = d"
  by (simp add: TestAndAdd_def split: if_splits)

lemma analyze_seen:
  "fst (TestAndAdd h (u64ToBytes (hashIPPath s (IP req) (Path req))) (bloom a)) \<Longrightarrow>
   analyze h s req a = a"
  by (simp add: analyze_def Let_def split_beta TestAndAdd_seen_same)

lemma analyze_unseen:
  assumes "\<not> fst (TestAndAdd h (u64ToBytes (hashIPPath s (IP req) (Path req))) (bloom a))"
  shows "analyze h s req a =
     (let a' = a\<lparr>bloom := snd (TestAndAdd h (u64ToBytes (hashIPPath s (IP req) (Path req))) (bloom a)),
                 counter := snd (Visit (IP req) (counter a))\<rparr>
      in if int (unat (fst (Visit (IP req) (counter a)))) \<ge> PageThreshold (cfg a)
         then block (IP req) a' else a')"
  using assms by (simp add: analyze_def Let_def split_beta)

lemma Visit_increments:
  assumes "counter_inv c"
  shows "fst (Visit ip c) = Count ip c + 1 \<and> Count ip (snd (Visit ip c)) = Count ip c + 1"
proof (cases "index c ip")
  case None
  then have "ip \<notin> set (lru c)" using assms by (auto simp: counter_inv_def split: if_splits)
  then have "data c ip = None" using assms by (auto simp: counter_inv_def)
  then have z: "Count ip c = 0" by (simp add: Count_def)
  have "data (snd (Visit ip c)) ip = Some 1"
    using Visit_fresh_entry [OF None] by simp
  then show ?thesis using Visit_fresh_fst [OF None] z by (simp add: Count_def)
next
  case (Some e)
  show ?thesis using Visit_known [OF Some] by (simp add: Count_def)
qed

text \<open>
  C3. The worker's \<open>analyze\<close> on one observation. If the Dedup Filter reports the dedup
  key as seen, the whole state is unchanged: the observation is discarded. Otherwise
  the counter is the one \<open>Visit\<close> leaves, the client's count is one more than before,
  and the blocklist becomes the old set plus the client when the new count reaches
  \<open>PageThreshold\<close>, and stays the old set when it does not.
\<close>

theorem analyze_dedup_count_promote:
  assumes "counter_inv (counter a)"
  shows
   "(fst (TestAndAdd h (u64ToBytes (hashIPPath s (IP req) (Path req))) (bloom a)) \<longrightarrow>
       analyze h s req a = a) \<and>
    (\<not> fst (TestAndAdd h (u64ToBytes (hashIPPath s (IP req) (Path req))) (bloom a)) \<longrightarrow>
       counter (analyze h s req a) = snd (Visit (IP req) (counter a)) \<and>
       Count (IP req) (counter (analyze h s req a)) = Count (IP req) (counter a) + 1 \<and>
       blocklist (analyze h s req a) =
         (if PageThreshold (cfg a) \<le> int (unat (Count (IP req) (counter a) + 1))
          then insert (IP req) (blocklist a) else blocklist a))"
proof -
  have inc: "fst (Visit (IP req) (counter a)) = Count (IP req) (counter a) + 1"
    and cnt: "Count (IP req) (snd (Visit (IP req) (counter a))) = Count (IP req) (counter a) + 1"
    using Visit_increments [OF assms] by simp_all
  show ?thesis
    using inc cnt analyze_seen [of h s req a]
    by (auto simp: analyze_unseen Let_def block_blocklist block_others)
qed

theorem analyze_dedup_count_promote_witness:
  "counter_inv (counter ex_analyzer) \<and>
   Count ''1.2.3.4'' (counter ex_after_a) = 1 \<and> blocklist ex_after_a = {} \<and>
   analyze ex_probe ex_digest ex_req_a ex_after_a = ex_after_a \<and>
   Count ''1.2.3.4'' (counter (analyze ex_probe ex_digest ex_req_b ex_after_a)) = 2 \<and>
   blocklist (analyze ex_probe ex_digest ex_req_b ex_after_a) = {''1.2.3.4''}"
proof -
  have inv0: "counter_inv (counter ex_analyzer)"
    by (simp add: ex_analyzer_def counter_inv_def NewCounter_def)
  have unseen0: "\<not> fst (TestAndAdd ex_probe (u64ToBytes (hashIPPath ex_digest (IP ex_req_a) (Path ex_req_a)))
                        (bloom ex_analyzer))"
    by (simp add: ex_defs eval_defs)
  have seen1: "fst (TestAndAdd ex_probe (u64ToBytes (hashIPPath ex_digest (IP ex_req_a) (Path ex_req_a)))
                     (bloom ex_after_a))"
    by (simp add: ex_after_a_value) (simp add: ex_defs eval_defs)
  have unseen1: "\<not> fst (TestAndAdd ex_probe (u64ToBytes (hashIPPath ex_digest (IP ex_req_b) (Path ex_req_b)))
                        (bloom ex_after_a))"
    by (simp add: ex_after_a_value) (simp add: ex_defs eval_defs)
  have c0: "Count ''1.2.3.4'' (counter ex_analyzer) = 0" and t0: "PageThreshold (cfg ex_analyzer) = 2"
    and b0: "blocklist ex_analyzer = {}"
    by (simp_all add: ex_analyzer_def ex_cfg_def NewCounter_def Count_def)
  have ipa: "IP ex_req_a = ''1.2.3.4''" and ipb: "IP ex_req_b = ''1.2.3.4''"
    by (simp_all add: ex_req_a_def ex_req_b_def)
  have r1: "Count ''1.2.3.4'' (counter ex_after_a) = 1 \<and> blocklist ex_after_a = {}"
    using analyze_dedup_count_promote [OF inv0, of ex_probe ex_digest ex_req_a,
        THEN conjunct2, THEN mp, OF unseen0, THEN conjunct2]
    by (simp add: ex_after_a_def c0 t0 b0 ipa)
  have t1: "PageThreshold (cfg ex_after_a) = 2"
    by (simp add: ex_after_a_value) (simp add: ex_analyzer_def ex_cfg_def)
  have r2: "analyze ex_probe ex_digest ex_req_a ex_after_a = ex_after_a"
    using analyze_dedup_count_promote [OF ex_after_a_inv, of ex_probe ex_digest ex_req_a] seen1
    by simp
  have r3: "Count ''1.2.3.4'' (counter (analyze ex_probe ex_digest ex_req_b ex_after_a)) = 2 \<and>
            blocklist (analyze ex_probe ex_digest ex_req_b ex_after_a) = {''1.2.3.4''}"
    using analyze_dedup_count_promote [OF ex_after_a_inv, of ex_probe ex_digest ex_req_b,
        THEN conjunct2, THEN mp, OF unseen1, THEN conjunct2] r1
    by (simp add: t1 ipb)
  show ?thesis
    using inv0 r1 r2 r3 by simp
qed

text \<open>
  An observation that is analyzed twice under one digest function is discarded the
  second time: the first round leaves its key in the filter.
\<close>

lemma analyze_bloom:
  "bloom (analyze h s req a) =
     snd (TestAndAdd h (u64ToBytes (hashIPPath s (IP req) (Path req))) (bloom a))"
  by (simp add: analyze_def Let_def split_beta block_others)

lemma analyze_repeat: "analyze h s req (analyze h s req a) = analyze h s req a"
proof -
  have "bloom_Test h (current (bloom (analyze h s req a)))
          (u64ToBytes (hashIPPath s (IP req) (Path req)))"
    unfolding analyze_bloom by (rule TestAndAdd_inserts)
  then have "fst (TestAndAdd h (u64ToBytes (hashIPPath s (IP req) (Path req)))
                (bloom (analyze h s req a)))"
    by (simp add: TestAndAdd_def)
  then show ?thesis by (rule analyze_seen)
qed

lemma Record_blocklist: "blocklist (Record s ip path a) = blocklist a"
  by (simp add: Record_def Let_def)

lemma Close_blocklist: "blocklist (Close a) = blocklist a"
  by (simp add: Close_def)

lemma rotate_blocklist: "blocklist (rotate est a) = blocklist a"
  by (simp add: rotate_def)

lemma analyze_blocklist: "blocklist a \<subseteq> blocklist (analyze h s req a)"
  by (auto simp: analyze_def Let_def split_beta block_blocklist)

lemma worker_blocklist: "blocklist a \<subseteq> blocklist (worker h est ev a)"
proof (cases ev)
  case Stopped
  then show ?thesis by simp
next
  case (Received s)
  show ?thesis
  proof (cases "queue a")
    case Nil
    then show ?thesis using Received by simp
  next
    case (Cons req rest)
    have "blocklist (a\<lparr>queue := rest, waiting := False\<rparr>)
            \<subseteq> blocklist (analyze h s req (a\<lparr>queue := rest, waiting := False\<rparr>))"
      by (rule analyze_blocklist)
    then show ?thesis using Received Cons by simp
  qed
next
  case Tick
  then show ?thesis by (simp add: rotate_blocklist)
next
  case Parks
  then show ?thesis by simp
qed

lemma apply_operation_blocklist: "blocklist a \<subseteq> blocklist (apply_operation h est op a)"
proof (cases op)
  case (DoRecord s ip path)
  then show ?thesis by (simp add: Record_blocklist)
next
  case (DoWorker ev)
  then show ?thesis by (simp add: worker_blocklist)
next
  case (DoBlock ip)
  then show ?thesis by (auto simp: block_blocklist)
next
  case DoClose
  then show ?thesis by (simp add: Close_blocklist)
qed

lemma run_blocklist: "blocklist a \<subseteq> blocklist (run h est ops a)"
proof (induction ops arbitrary: a)
  case Nil
  then show ?case by (simp add: run_def)
next
  case (Cons op ops)
  have "blocklist a \<subseteq> blocklist (apply_operation h est op a)"
    by (rule apply_operation_blocklist)
  also have "\<dots> \<subseteq> blocklist (run h est ops (apply_operation h est op a))"
    by (rule Cons.IH)
  finally show ?case by (simp add: run_def)
qed

lemma ex_blocked_blocklist: "blocklist ex_blocked = {''1.2.3.4''}"
  by (simp add: ex_blocked_def ex_after_a_value) (simp add: ex_defs eval_defs)

text \<open>
  C4. Blocklist membership only grows: a client that is blocked stays blocked after
  any sequence of \<open>Record\<close> calls, worker rounds (processing an observation, rotation,
  stopping), direct \<open>block\<close> calls and \<open>Close\<close>.
\<close>

theorem Blocked_monotone:
  assumes "Blocked ip a"
  shows "Blocked ip (run h est ops a)"
  using assms run_blocklist [of a h est ops] by (auto simp: Blocked_def)

theorem Blocked_monotone_witness:
  "Blocked ''1.2.3.4'' ex_blocked \<and>
   Blocked ''1.2.3.4''
     (run ex_probe (16, 2)
        [DoWorker Parks, DoRecord ex_digest ''1.2.3.4'' ''/c'', DoWorker Tick,
         DoWorker (Received ex_digest), DoClose, DoWorker Stopped] ex_blocked)"
proof -
  have b: "Blocked ''1.2.3.4'' ex_blocked"
    by (simp add: Blocked_def ex_blocked_blocklist)
  show ?thesis
    using b Blocked_monotone [OF b] by simp
qed


section \<open>Properties of the Decision Orchestrator\<close>

lemma ex_kb_fake: "kb ex_limiter ''Googlebot/2.1'' ''10.0.0.1'' = \<lparr>IsBot = True, Status = StatusFailed\<rparr>"
  by (simp add: ex_limiter_def ex_kb_def)

lemma ex_kb_pending: "kb ex_limiter ''bingbot/2.0'' ''1.2.3.4'' = \<lparr>IsBot = True, Status = StatusPending\<rparr>"
  by (simp add: ex_limiter_def ex_kb_def)

lemma ex_limiter_Blocked: "Blocked ''1.2.3.4'' (analyzer ex_limiter)"
  by (simp add: ex_limiter_def Blocked_def ex_blocked_blocklist)

lemma Allow_fake_bot:
  assumes "IsBot (kb l ua ip)"
    and "Status (kb l ua ip) = StatusFailed \<or> Status (kb l ua ip) = StatusUnknown"
  shows "Allow tb s ua ip l = ((False, ReasonFakeBot), l)"
    and "Allow_bool tb s ua ip l = (False, l)"
    and "Wait tb s ctx ua ip l = ((Some ErrLimit, ReasonFakeBot), l)"
    and "Wait_error tb s ctx ua ip l = (Some ErrLimit, l)"
  using assms by (auto simp: Allow_def Allow_bool_def Wait_def Wait_error_def Let_def)

text \<open>
  C1. When the classifier reports a bot with status \<open>Failed\<close> or \<open>Unknown\<close>, \<open>Allow\<close>
  denies with reason \<open>ReasonFakeBot\<close> and returns the limiter as it was, whatever its
  state, so also on the first call: no entry is added to the limiter pool. The text that
  returns a bare \<open>bool\<close> denies in the same way.
\<close>

theorem Allow_fake_bot_denied:
  assumes "IsBot (kb l ua ip)"
    and "Status (kb l ua ip) = StatusFailed \<or> Status (kb l ua ip) = StatusUnknown"
  shows "Allow tb s ua ip l = ((False, ReasonFakeBot), l) \<and>
         blocked (snd (Allow tb s ua ip l)) = blocked l \<and>
         Allow_bool tb s ua ip l = (False, l)"
  using Allow_fake_bot(1,2) [OF assms] by simp

theorem Allow_fake_bot_denied_witness:
  "Status (kb ex_limiter ''Googlebot/2.1'' ''10.0.0.1'') = StatusFailed \<and>
   blocked ex_limiter = Map.empty \<and>
   fst (Allow ex_bucket ex_digest ''Googlebot/2.1'' ''10.0.0.1'' ex_limiter) = (False, ReasonFakeBot) \<and>
   blocked (snd (Allow ex_bucket ex_digest ''Googlebot/2.1'' ''10.0.0.1'' ex_limiter)) = Map.empty"
  using Allow_fake_bot_denied [of ex_limiter "''Googlebot/2.1''" "''10.0.0.1''" ex_bucket ex_digest]
  by (simp add: ex_kb_fake) (simp add: ex_limiter_def)

lemma Pending_bot:
  assumes "IsBot (kb l ua ip)" and "Status (kb l ua ip) = StatusPending"
  shows "Allow tb s ua ip l = ((True, ReasonNone), l)"
    and "Allow_bool tb s ua ip l = (True, l)"
    and "Wait tb s ctx ua ip l = ((None, ReasonNone), l)"
    and "Wait_error tb s ctx ua ip l = (None, l)"
  using assms by (auto simp: Allow_def Allow_bool_def Wait_def Wait_error_def Let_def)

text \<open>
  C5. When the classifier reports a bot with status \<open>Pending\<close>, \<open>Allow\<close> allows with no
  reason and \<open>Wait\<close> returns nil, and both return the limiter as it was, whatever the
  blocklist and the limiter pool hold: neither is read, nothing is recorded, and the
  next call asks the classifier again. The bare texts do the same.
\<close>

theorem Pending_bot_allowed:
  assumes "IsBot (kb l ua ip)" and "Status (kb l ua ip) = StatusPending"
  shows "Allow tb s ua ip l = ((True, ReasonNone), l) \<and>
         Wait tb s ctx ua ip l = ((None, ReasonNone), l) \<and>
         Allow_bool tb s ua ip l = (True, l) \<and>
         Wait_error tb s ctx ua ip l = (None, l)"
  using Pending_bot [OF assms] by simp

theorem Pending_bot_allowed_witness:
  "Status (kb ex_limiter ''bingbot/2.0'' ''1.2.3.4'') = StatusPending \<and>
   Blocked ''1.2.3.4'' (analyzer ex_limiter) \<and>
   Allow ex_bucket ex_digest ''bingbot/2.0'' ''1.2.3.4'' ex_limiter = ((True, ReasonNone), ex_limiter) \<and>
   Wait ex_bucket ex_digest Cancelled ''bingbot/2.0'' ''1.2.3.4'' ex_limiter = ((None, ReasonNone), ex_limiter)"
  using Pending_bot_allowed [of ex_limiter "''bingbot/2.0''" "''1.2.3.4''" ex_bucket ex_digest Cancelled]
    ex_limiter_Blocked
  by (simp add: ex_kb_pending)

text \<open>
  C10. \<open>ErrLimit\<close> is the value \<open>context.DeadlineExceeded\<close>. For a bot with status
  \<open>Failed\<close> or \<open>Unknown\<close>, \<open>Wait\<close> returns that value under every context, a live one
  included, where it is the very error an expired context reports.
\<close>

theorem Wait_fake_bot_deadline_error:
  assumes "IsBot (kb l ua ip)"
    and "Status (kb l ua ip) = StatusFailed \<or> Status (kb l ua ip) = StatusUnknown"
  shows "ErrLimit = DeadlineExceeded \<and>
         fst (fst (Wait tb s ctx ua ip l)) = Some DeadlineExceeded \<and>
         fst (Wait_error tb s ctx ua ip l) = Some DeadlineExceeded \<and>
         fst (fst (Wait tb s Live ua ip l)) = ctx_Err Expired"
  using Allow_fake_bot(3,4) [OF assms] by (simp add: ErrLimit_def)

theorem Wait_fake_bot_deadline_error_witness:
  "ctx_Err Live = None \<and>
   fst (fst (Wait ex_bucket ex_digest Live ''Googlebot/2.1'' ''10.0.0.1'' ex_limiter)) = Some DeadlineExceeded \<and>
   ctx_Err Expired = Some DeadlineExceeded"
  using Wait_fake_bot_deadline_error [of ex_limiter "''Googlebot/2.1''" "''10.0.0.1''" ex_bucket ex_digest Live]
  by (simp add: ex_kb_fake)

lemma Wait_layer2:
  assumes "\<not> IsBot (kb l ua ip)" and "Blocked ip (analyzer l)"
  shows "fst (Wait tb s ctx ua ip l) =
           (case fst (waitBlocked tb ctx ip l) of
              Some e \<Rightarrow> (Some e, ReasonRateLimited)
            | None \<Rightarrow> (Some ErrLimit, ReasonRateLimited))"
  using assms by (simp add: Wait_def Let_def split_beta split: option.splits)

lemma waitBlocked_fst: "fst (waitBlocked tb ctx ip l) = fst (lim_Wait tb ctx (fst (getLimiter tb ip l)))"
  by (simp add: waitBlocked_def Let_def split_beta)

lemma Wait_error_blocked_client:
  assumes "\<not> IsBot (kb l ua ip)" and "Blocked ip (analyzer l)"
  shows "fst (Wait_error tb s ctx ua ip l) = fst (lim_Wait tb ctx (fst (getLimiter tb ip l)))"
  using assms by (simp add: Wait_error_def Let_def waitBlocked_fst)

lemma ex_drained_facts:
  "\<not> IsBot (kb ex_drained ''Mozilla/5.0'' ''1.2.3.4'')"
  "Blocked ''1.2.3.4'' (analyzer ex_drained)"
  "lim_Wait ex_bucket Live (fst (getLimiter ex_bucket ''1.2.3.4'' ex_drained)) =
     (Some (RateError ''rate: Wait(n=1) would exceed context deadline''),
      fst (getLimiter ex_bucket ''1.2.3.4'' ex_drained))"
  by (simp_all add: ex_drained_def getLimiter_def)
     (simp_all add: ex_limiter_def ex_kb_def Blocked_def ex_blocked_blocklist ex_bucket_def)

text \<open>
  C2. The claim: for a client that is not a bot and is on the blocklist, \<open>Wait\<close> returns
  the context's error when the context ends before a token is acquired, and the sentinel
  \<open>ErrLimit\<close>, never nil, when the token bucket denies without the context ending. The
  comment above \<open>Wait\<close> says the same: the error is a cancelled or timed out context, or
  \<open>ErrLimit\<close>. The code misses the case where the limiter's wait fails with an error of
  its own. Here the client has no token left and the context is live: the limiter's wait
  gives up without taking a token, and \<open>Wait\<close> returns the limiter's error, which is
  neither the context's error (the context reports none) nor \<open>ErrLimit\<close>. The branch that
  returns it is commented as the context having been cancelled or timed out.
\<close>

theorem Wait_returns_bucket_error:
  "\<not> IsBot (kb ex_drained ''Mozilla/5.0'' ''1.2.3.4'') \<and>
   Blocked ''1.2.3.4'' (analyzer ex_drained) \<and>
   ctx_Err Live = None \<and>
   snd (lim_Wait ex_bucket Live (fst (getLimiter ex_bucket ''1.2.3.4'' ex_drained))) =
     fst (getLimiter ex_bucket ''1.2.3.4'' ex_drained) \<and>
   fst (fst (Wait ex_bucket ex_digest Live ''Mozilla/5.0'' ''1.2.3.4'' ex_drained)) =
     Some (RateError ''rate: Wait(n=1) would exceed context deadline'') \<and>
   fst (fst (Wait ex_bucket ex_digest Live ''Mozilla/5.0'' ''1.2.3.4'' ex_drained)) \<noteq> Some ErrLimit \<and>
   fst (fst (Wait ex_bucket ex_digest Live ''Mozilla/5.0'' ''1.2.3.4'' ex_drained)) \<noteq> ctx_Err Live"
proof -
  have w: "fst (Wait ex_bucket ex_digest Live ''Mozilla/5.0'' ''1.2.3.4'' ex_drained) =
           (Some (RateError ''rate: Wait(n=1) would exceed context deadline''), ReasonRateLimited)"
    using Wait_layer2 [OF ex_drained_facts(1,2), of ex_bucket ex_digest Live] ex_drained_facts(3)
    by (simp add: waitBlocked_fst)
  show ?thesis
    using w ex_drained_facts by (simp add: ErrLimit_def)
qed

text \<open>
  Where the limiter's wait returns the context's error or nil, \<open>Wait\<close> does what the
  claim says: the context's error is returned as it is, and nil becomes \<open>ErrLimit\<close>.
\<close>

lemma Wait_blocked_context_error_or_nil:
  assumes "\<not> IsBot (kb l ua ip)" and "Blocked ip (analyzer l)"
  shows "(fst (lim_Wait tb ctx (fst (getLimiter tb ip l))) = Some Canceled \<longrightarrow>
            fst (fst (Wait tb s ctx ua ip l)) = Some Canceled) \<and>
         (fst (lim_Wait tb ctx (fst (getLimiter tb ip l))) = Some DeadlineExceeded \<longrightarrow>
            fst (fst (Wait tb s ctx ua ip l)) = Some DeadlineExceeded) \<and>
         (fst (lim_Wait tb ctx (fst (getLimiter tb ip l))) = None \<longrightarrow>
            fst (fst (Wait tb s ctx ua ip l)) = Some ErrLimit)"
  using Wait_layer2 [OF assms, of tb s ctx] by (simp add: waitBlocked_fst)

text \<open>
  The two texts of limiter.go differ from this one. The second one returns what the
  limiter's wait returns, nil included. The first one has no case for \<open>Pending\<close>, \<open>Failed\<close> or
  \<open>Unknown\<close>: a bot that is not verified goes to the limiter pool, which gets an entry
  for it, and the token bucket decides.
\<close>

lemma Allow_first_unverified_bot:
  assumes "IsBot (kb l ua ip)" and "Status (kb l ua ip) \<noteq> StatusVerified"
  shows "Allow_first tb s ua ip l = allowBlocked tb ip l \<and>
         Wait_first tb s ctx ua ip l = waitBlocked tb ctx ip l \<and>
         ip \<in> dom (blocked (snd (Allow_first tb s ua ip l)))"
  using assms
  by (simp add: Allow_first_def Wait_first_def Let_def allowBlocked_def split_beta)

lemma Allow_first_fake_bot_example:
  "Allow_first ex_bucket ex_digest ''Googlebot/2.1'' ''10.0.0.1'' ex_limiter =
     (True, ex_limiter\<lparr>blocked := [''10.0.0.1'' \<mapsto> 0]\<rparr>)"
  by (simp add: Allow_first_def allowBlocked_def getLimiter_def ex_kb_fake Let_def)
     (simp add: ex_limiter_def ex_bucket_def)

text \<open>
  The orchestrator itself never writes the blocklist: \<open>Allow\<close>, \<open>Wait\<close> and
  \<open>Limiter.Close\<close> leave it as it is.
\<close>

lemma allowBlocked_analyzer: "analyzer (snd (allowBlocked tb ip l)) = analyzer l"
  by (simp add: allowBlocked_def getLimiter_def Let_def split_beta split: option.splits)

lemma waitBlocked_analyzer: "analyzer (snd (waitBlocked tb ctx ip l)) = analyzer l"
  by (simp add: waitBlocked_def getLimiter_def Let_def split_beta split: option.splits)

lemma Allow_blocklist:
  "blocklist (analyzer (snd (Allow tb s ua ip l))) = blocklist (analyzer l)"
  by (simp add: Allow_def Let_def split_beta allowBlocked_analyzer Record_blocklist
      split: Status.splits)

lemma Wait_blocklist:
  "blocklist (analyzer (snd (Wait tb s ctx ua ip l))) = blocklist (analyzer l)"
  by (simp add: Wait_def Let_def split_beta waitBlocked_analyzer Record_blocklist
      split: Status.splits)

lemma Limiter_Close_blocklist:
  "blocklist (analyzer (Limiter_Close l)) = blocklist (analyzer l)"
  by (simp add: Limiter_Close_def Close_blocklist)

end
